theory Spec2Isabelle
  imports Complex_Main "HOL-Library.Sublist"
begin

section \<open>The token bucket of \<^verbatim>\<open>bot/rate_limiter.py\<close>\<close>

text \<open>
  Python floats are modelled as real numbers (rounding is abstracted away), and every call
  of \<^verbatim>\<open>time.time()\<close> is an explicit argument holding the clock reading the call
  returned. A sleep is therefore visible only through the later clock readings.
\<close>

datatype exn = ZeroDivisionError | ValueError string | Raised string | CancelledError | Raised_base string

text \<open>
  Whether \<^verbatim>\<open>except Exception\<close> catches it: \<^verbatim>\<open>asyncio.CancelledError\<close> and the other
  exceptions that derive from \<^verbatim>\<open>BaseException\<close> only (\<open>Raised_base\<close>) are not caught.
\<close>

fun is_exception :: "exn \<Rightarrow> bool" where
  "is_exception ZeroDivisionError = True"
| "is_exception (ValueError m) = True"
| "is_exception (Raised m) = True"
| "is_exception CancelledError = False"
| "is_exception (Raised_base m) = False"

record RateLimitBucket =
  tokens :: real
  capacity :: real
  refill_rate :: real
  last_refill :: real

text \<open>\<^verbatim>\<open>RateLimitBucket.refill\<close>; the returned value is the \<open>tokens\<close> field of the result.\<close>

definition refill :: "RateLimitBucket \<Rightarrow> real \<Rightarrow> RateLimitBucket" where
  "refill b now =
     (let elapsed = now - last_refill b
      in b\<lparr>tokens := min (capacity b) (tokens b + elapsed * refill_rate b),
           last_refill := now\<rparr>)"

text \<open>\<^verbatim>\<open>RateLimitBucket.consume\<close>: the bucket after the call and the returned flag.\<close>

definition consume :: "RateLimitBucket \<Rightarrow> real \<Rightarrow> real \<Rightarrow> RateLimitBucket \<times> bool" where
  "consume b now n =
     (let b1 = refill b now; available = tokens b1
      in if available \<ge> n then (b1\<lparr>tokens := tokens b1 - n\<rparr>, True)
         else (b1, False))"

text \<open>
  \<^verbatim>\<open>RateLimitBucket.wait_time\<close>: the bucket after the call and either the returned
  duration or the \<^verbatim>\<open>ZeroDivisionError\<close> that Python's float division raises for a
  zero refill rate. The quotient is the exact one. The quotient of two doubles is rounded:
  it can be \<open>0.0\<close> for a positive \<open>needed\<close> (underflow, or an infinite rate), and added
  to a clock reading it rounds again. So no property below says that a sleep of exactly
  this length refills the tokens asked for, or that a result of zero means the tokens
  are there.
\<close>

definition wait_time :: "RateLimitBucket \<Rightarrow> real \<Rightarrow> real \<Rightarrow> RateLimitBucket \<times> (exn + real)" where
  "wait_time b now n =
     (let b1 = refill b now; available = tokens b1
      in if available \<ge> n then (b1, Inr 0)
         else (let needed = n - available
               in if refill_rate b1 = 0 then (b1, Inl ZeroDivisionError)
                  else (b1, Inr (needed / refill_rate b1))))"

text \<open>
  The two assignments of \<^verbatim>\<open>handle_rate_limit_response\<close> on the bucket it picked:
  \<^verbatim>\<open>bucket.tokens = 0; bucket.last_refill = time.time() + retry_after\<close>.
\<close>

definition reset_bucket :: "RateLimitBucket \<Rightarrow> real \<Rightarrow> real \<Rightarrow> RateLimitBucket" where
  "reset_bucket b now retry_after = b\<lparr>tokens := 0, last_refill := now + retry_after\<rparr>"

text \<open>The invariant the specification states for a bucket.\<close>

definition bucket_inv :: "RateLimitBucket \<Rightarrow> bool" where
  "bucket_inv b = (0 \<le> tokens b \<and> tokens b \<le> capacity b)"

section \<open>Queues, futures and the limiter\<close>

text \<open>
  A queued call: \<open>coro\<close> stands for the callable together with its arguments, \<open>future\<close>
  is the address of its \<^verbatim>\<open>asyncio.Future\<close> in the store of futures.
\<close>

record 'op QueuedItem =
  coro :: 'op
  future :: nat
  timestamp :: real

datatype 'r future_state = Pending | Result 'r | Exception exn

text \<open>\<^verbatim>\<open>collections.deque(maxlen=m)\<close> with the operations the limiter uses; \<^verbatim>\<open>popleft\<close> is the split of \<open>items\<close> into head and tail.\<close>

record 'a deque =
  items :: "'a list"
  maxlen :: nat

definition dq_append :: "'a deque \<Rightarrow> 'a \<Rightarrow> 'a deque" where
  "dq_append q x =
     (let xs = items q @ [x]
      in q\<lparr>items := (if length xs > maxlen q then tl xs else xs)\<rparr>)"

definition dq_appendleft :: "'a deque \<Rightarrow> 'a \<Rightarrow> 'a deque" where
  "dq_appendleft q x =
     (let xs = x # items q
      in q\<lparr>items := (if length xs > maxlen q then butlast xs else xs)\<rparr>)"

record Stats =
  rate_limit_hits :: nat
  messages_queued :: nat
  messages_sent :: nat
  queue_overflows :: nat

text \<open>
  The fields of \<^verbatim>\<open>RateLimiter\<close>. A lock is never awaited while held across a suspension
  by code that touches the same queue, so of \<open>channel_locks\<close> only the set of keys is kept;
  \<open>processing_tasks\<close> likewise keeps the keys that have a registered task. \<open>futures\<close> is the
  store of the futures created by \<^verbatim>\<open>enqueue_send\<close>, addressed by position.
\<close>

record ('op, 'r) RateLimiter =
  channel_queues :: "int \<rightharpoonup> 'op QueuedItem deque"
  channel_locks :: "int set"
  channel_buckets :: "int \<rightharpoonup> RateLimitBucket"
  processing_tasks :: "int set"
  global_bucket :: RateLimitBucket
  audit_log_bucket :: RateLimitBucket
  channel_rate_limit :: real
  channel_window :: real
  send_spacing :: real
  max_queue_size :: int
  enabled :: bool
  stats :: Stats
  futures :: "'r future_state list"

text \<open>\<^verbatim>\<open>RateLimiter.__init__\<close>, with the two clock readings it takes.\<close>

definition init_limiter :: "real \<Rightarrow> real \<Rightarrow> ('op, 'r) RateLimiter" where
  "init_limiter t_global t_audit =
     \<lparr>channel_queues = Map.empty,
      channel_locks = {},
      channel_buckets = Map.empty,
      processing_tasks = {},
      global_bucket = \<lparr>tokens = 50, capacity = 50, refill_rate = 50, last_refill = t_global\<rparr>,
      audit_log_bucket = \<lparr>tokens = 2, capacity = 2, refill_rate = 2, last_refill = t_audit\<rparr>,
      channel_rate_limit = 5,
      channel_window = 5,
      send_spacing = 1 / 10,
      max_queue_size = 100,
      enabled = True,
      stats = \<lparr>rate_limit_hits = 0, messages_queued = 0, messages_sent = 0, queue_overflows = 0\<rparr>,
      futures = []\<rparr>"

text \<open>\<^verbatim>\<open>RateLimiter.configure\<close>: an argument left at \<^verbatim>\<open>None\<close> keeps the current value.\<close>

definition configure ::
  "('op, 'r) RateLimiter \<Rightarrow> real option \<Rightarrow> real option \<Rightarrow> real option \<Rightarrow> int option \<Rightarrow> bool option
     \<Rightarrow> ('op, 'r) RateLimiter" where
  "configure s crl cw sp mqs en =
     (let s1 = (case crl of None \<Rightarrow> s | Some v \<Rightarrow> s\<lparr>channel_rate_limit := v\<rparr>);
          s2 = (case cw of None \<Rightarrow> s1 | Some v \<Rightarrow> s1\<lparr>channel_window := v\<rparr>);
          s3 = (case sp of None \<Rightarrow> s2 | Some v \<Rightarrow> s2\<lparr>send_spacing := v\<rparr>);
          s4 = (case mqs of None \<Rightarrow> s3 | Some v \<Rightarrow> s3\<lparr>max_queue_size := v\<rparr>)
      in (case en of None \<Rightarrow> s4 | Some v \<Rightarrow> s4\<lparr>enabled := v\<rparr>))"

text \<open>
  \<^verbatim>\<open>_get_channel_bucket\<close>: get or create. Creating divides by \<open>channel_window\<close>, which
  raises for a zero window.
\<close>

definition get_channel_bucket ::
  "('op, 'r) RateLimiter \<Rightarrow> int \<Rightarrow> real \<Rightarrow> exn + (('op, 'r) RateLimiter \<times> RateLimitBucket)" where
  "get_channel_bucket s channel_id now =
     (case channel_buckets s channel_id of
        Some b \<Rightarrow> Inr (s, b)
      | None \<Rightarrow>
          if channel_window s = 0 then Inl ZeroDivisionError
          else (let b = \<lparr>tokens = channel_rate_limit s,
                         capacity = channel_rate_limit s,
                         refill_rate = channel_rate_limit s / channel_window s,
                         last_refill = now\<rparr>
                in Inr (s\<lparr>channel_buckets := (channel_buckets s)(channel_id \<mapsto> b)\<rparr>, b)))"

text \<open>\<^verbatim>\<open>_get_channel_lock\<close>: get or create.\<close>

definition get_channel_lock :: "('op, 'r) RateLimiter \<Rightarrow> int \<Rightarrow> ('op, 'r) RateLimiter" where
  "get_channel_lock s channel_id = s\<lparr>channel_locks := insert channel_id (channel_locks s)\<rparr>"

text \<open>
  \<^verbatim>\<open>_get_channel_queue\<close>: get or create; \<^verbatim>\<open>deque(maxlen=...)\<close> raises
  \<^verbatim>\<open>ValueError\<close> for a negative bound. The bound is the \<open>max_queue_size\<close> of the moment
  of creation.
\<close>

definition get_channel_queue ::
  "('op, 'r) RateLimiter \<Rightarrow> int \<Rightarrow> exn + (('op, 'r) RateLimiter \<times> 'op QueuedItem deque)" where
  "get_channel_queue s channel_id =
     (case channel_queues s channel_id of
        Some q \<Rightarrow> Inr (s, q)
      | None \<Rightarrow>
          if max_queue_size s < 0 then Inl (ValueError ''maxlen must be non-negative'')
          else (let q = \<lparr>items = [], maxlen = nat (max_queue_size s)\<rparr>
                in Inr (s\<lparr>channel_queues := (channel_queues s)(channel_id \<mapsto> q)\<rparr>, q)))"


text \<open>What a call does besides changing the limiter: it sleeps, and it invokes target operations.\<close>

datatype 'op effect = Slept real | Invoked 'op

text \<open>
  \<^verbatim>\<open>handle_rate_limit_response\<close>. \<open>t_create\<close> is the clock reading used if the channel's
  bucket has to be created, \<open>t_reset\<close> the one added to \<open>retry_after\<close>.
\<close>

definition handle_rate_limit_response ::
  "('op, 'r) RateLimiter \<Rightarrow> int option \<Rightarrow> real \<Rightarrow> real \<Rightarrow> real
     \<Rightarrow> ('op, 'r) RateLimiter \<times> (exn + 'op effect list)" where
  "handle_rate_limit_response s channel_id retry_after t_create t_reset =
     (let s1 = s\<lparr>stats := (stats s)\<lparr>rate_limit_hits := rate_limit_hits (stats s) + 1\<rparr>\<rparr>
      in case channel_id of
           Some c \<Rightarrow>
             (case get_channel_bucket s1 c t_create of
                Inl e \<Rightarrow> (s1, Inl e)
              | Inr (s2, b) \<Rightarrow>
                  (s2\<lparr>channel_buckets := (channel_buckets s2)(c \<mapsto> reset_bucket b t_reset retry_after)\<rparr>,
                   Inr [Slept retry_after]))
         | None \<Rightarrow>
             (s1\<lparr>global_bucket := reset_bucket (global_bucket s1) t_reset retry_after\<rparr>,
              Inr [Slept retry_after]))"

text \<open>
  What \<^verbatim>\<open>enqueue_send\<close> returns: the task wrapping the operation itself when limiting is
  disabled, otherwise the future created for the queued item.
\<close>

datatype 'op handle = Task_of 'op | Future_at nat

text \<open>
  \<^verbatim>\<open>enqueue_send\<close>. It contains no suspension point (its lock is free whenever it runs),
  so it is one atomic step. \<open>now\<close> is the clock reading stored as the item's timestamp.
\<close>

definition enqueue_send ::
  "('op, 'r) RateLimiter \<Rightarrow> int \<Rightarrow> 'op \<Rightarrow> real \<Rightarrow> ('op, 'r) RateLimiter \<times> (exn + 'op handle)" where
  "enqueue_send s channel_id c now =
     (if \<not> enabled s then (s, Inr (Task_of c))
      else
        (let fid = length (futures s);
             s1 = s\<lparr>futures := futures s @ [Pending]\<rparr>;
             item = \<lparr>coro = c, future = fid, timestamp = now\<rparr>
         in case get_channel_queue s1 channel_id of
              Inl e \<Rightarrow> (s1, Inl e)
            | Inr (s2, q) \<Rightarrow>
                (let s3 = get_channel_lock s2 channel_id
                 in if int (length (items q)) \<ge> max_queue_size s3 then
                      (s3\<lparr>stats := (stats s3)\<lparr>queue_overflows := queue_overflows (stats s3) + 1\<rparr>,
                          futures := (futures s3)[fid := Exception (ValueError ''Rate limit queue overflow'')]\<rparr>,
                       Inr (Future_at fid))
                    else
                      (let s4 = s3\<lparr>channel_queues := (channel_queues s3)(channel_id \<mapsto> dq_append q item),
                                   stats := (stats s3)\<lparr>messages_queued := messages_queued (stats s3) + 1\<rparr>\<rparr>;
                           s5 = (if channel_id \<notin> processing_tasks s4
                                 then s4\<lparr>processing_tasks := insert channel_id (processing_tasks s4)\<rparr>
                                 else s4)
                       in (s5, Inr (Future_at fid))))))"

text \<open>
  \<^verbatim>\<open>execute_with_audit_log_limit\<close>. \<open>run\<close> is the outcome of awaiting the target
  operation; \<open>t1\<close>, \<open>t2\<close>, \<open>t3\<close> are the clock readings of the first \<^verbatim>\<open>wait_time\<close>, of
  \<^verbatim>\<open>consume\<close> and of the second \<^verbatim>\<open>wait_time\<close>.
\<close>

definition sleep_if_positive :: "real \<Rightarrow> 'op effect list" where
  "sleep_if_positive w = (if w > 0 then [Slept w] else [])"

definition execute_with_audit_log_limit ::
  "('op, 'r) RateLimiter \<Rightarrow> ('op \<Rightarrow> exn + 'r) \<Rightarrow> 'op \<Rightarrow> real \<Rightarrow> real \<Rightarrow> real
     \<Rightarrow> ('op, 'r) RateLimiter \<times> (exn + 'r) \<times> 'op effect list" where
  "execute_with_audit_log_limit s run c t1 t2 t3 =
     (if \<not> enabled s then (s, run c, [Invoked c])
      else
        (case wait_time (audit_log_bucket s) t1 1 of
           (b1, Inl e) \<Rightarrow> (s\<lparr>audit_log_bucket := b1\<rparr>, Inl e, [])
         | (b1, Inr w1) \<Rightarrow>
             (case consume b1 t2 1 of
                (b2, True) \<Rightarrow>
                  (s\<lparr>audit_log_bucket := b2\<rparr>, run c, sleep_if_positive w1 @ [Invoked c])
              | (b2, False) \<Rightarrow>
                  (case wait_time b2 t3 1 of
                     (b3, Inl e) \<Rightarrow> (s\<lparr>audit_log_bucket := b3\<rparr>, Inl e, sleep_if_positive w1)
                   | (b3, Inr w2) \<Rightarrow>
                       (s\<lparr>audit_log_bucket := b3\<rparr>, run c,
                        sleep_if_positive w1 @ sleep_if_positive w2 @ [Invoked c])))))"

section \<open>The drain task of one channel\<close>

text \<open>
  \<^verbatim>\<open>_process_channel_queue\<close> runs as an asyncio task. Between two suspension points it
  runs atomically, so it is modelled as a small state machine: \<open>task_step\<close> runs the task
  from one suspension point to the next. The control points are
  \<^item> \<open>Idle\<close>: no task is registered for the channel;
  \<^item> \<open>Start\<close>: the task has been created by \<^verbatim>\<open>enqueue_send\<close> and has not run yet;
  \<^item> \<open>Head\<close>: at the top of the loop (after the target operation or the 0.1 s sleep);
  \<^item> \<open>Global_sleep item\<close>: \<open>item\<close> has been popped, the global \<^verbatim>\<open>wait_time\<close> is
    computed and slept;
  \<^item> \<open>Channel_sleep item\<close>: the global token is taken, the channel's \<^verbatim>\<open>wait_time\<close> is
    computed and slept;
  \<^item> \<open>Crashed e\<close>: an exception escaped the task.
\<close>

datatype 'op pc =
    Idle
  | Start
  | Head
  | Global_sleep "'op QueuedItem"
  | Channel_sleep "'op QueuedItem"
  | Crashed exn

text \<open>The three get-or-create calls before the loop.\<close>

definition task_start ::
  "('op, 'r) RateLimiter \<Rightarrow> int \<Rightarrow> real \<Rightarrow> ('op, 'r) RateLimiter \<times> exn option" where
  "task_start s channel_id t_create =
     (case get_channel_queue s channel_id of
        Inl e \<Rightarrow> (s, Some e)
      | Inr (s1, q) \<Rightarrow>
          (let s2 = get_channel_lock s1 channel_id
           in case get_channel_bucket s2 channel_id t_create of
                Inl e \<Rightarrow> (s2, Some e)
              | Inr (s3, b) \<Rightarrow> (s3, None)))"

text \<open>
  Top of the loop up to the sleep for the global bucket. The task holds the queue and the
  bucket it looked up at its start; they are never replaced in the dictionaries, so they
  are read through the dictionaries here (the \<open>None\<close> branches cannot be reached after
  \<open>task_start\<close>).
\<close>

definition loop_head ::
  "('op, 'r) RateLimiter \<Rightarrow> int \<Rightarrow> real \<Rightarrow> ('op, 'r) RateLimiter \<times> 'op pc \<times> 'op effect list" where
  "loop_head s channel_id t1 =
     (case channel_queues s channel_id of
        None \<Rightarrow> (s, Crashed (Raised ''no queue''), [])
      | Some q \<Rightarrow>
          (case items q of
             [] \<Rightarrow> (s\<lparr>processing_tasks := processing_tasks s - {channel_id}\<rparr>, Idle, [])
           | item # rest \<Rightarrow>
               (let s1 = s\<lparr>channel_queues := (channel_queues s)(channel_id \<mapsto> q\<lparr>items := rest\<rparr>)\<rparr>
                in case wait_time (global_bucket s1) t1 1 of
                     (gb, Inl e) \<Rightarrow> (s1\<lparr>global_bucket := gb\<rparr>, Crashed e, [])
                   | (gb, Inr w) \<Rightarrow>
                       (s1\<lparr>global_bucket := gb\<rparr>, Global_sleep item, sleep_if_positive w))))"

text \<open>
  After the global sleep: \<^verbatim>\<open>self._global_bucket.consume()\<close> (its result is ignored),
  then the channel bucket's \<^verbatim>\<open>wait_time\<close>.
\<close>

definition after_global_sleep ::
  "('op, 'r) RateLimiter \<Rightarrow> int \<Rightarrow> 'op QueuedItem \<Rightarrow> real \<Rightarrow> real
     \<Rightarrow> ('op, 'r) RateLimiter \<times> 'op pc \<times> 'op effect list" where
  "after_global_sleep s channel_id item t2 t3 =
     (let s1 = s\<lparr>global_bucket := fst (consume (global_bucket s) t2 1)\<rparr>
      in case channel_buckets s1 channel_id of
           None \<Rightarrow> (s1, Crashed (Raised ''no bucket''), [])
         | Some b \<Rightarrow>
             (case wait_time b t3 1 of
                (b1, Inl e) \<Rightarrow>
                  (s1\<lparr>channel_buckets := (channel_buckets s1)(channel_id \<mapsto> b1)\<rparr>, Crashed e, [])
              | (b1, Inr w) \<Rightarrow>
                  (s1\<lparr>channel_buckets := (channel_buckets s1)(channel_id \<mapsto> b1)\<rparr>,
                   Channel_sleep item, sleep_if_positive w)))"

text \<open>\<^verbatim>\<open>if item.future and not item.future.done(): item.future.set_...\<close>\<close>

definition resolve :: "'r future_state list \<Rightarrow> nat \<Rightarrow> 'r future_state \<Rightarrow> 'r future_state list" where
  "resolve fs fid v = (if fid < length fs \<and> fs ! fid = Pending then fs[fid := v] else fs)"

text \<open>
  After the channel sleep: consume and execute, or put the item back at the front and
  sleep 0.1 s. Awaiting the target operation and storing its outcome are taken as one step.
  An exception of the operation that \<^verbatim>\<open>except Exception\<close> does not catch leaves the
  loop: the task ends with it, the future stays as it is and the task stays registered.
\<close>

definition after_channel_sleep ::
  "('op, 'r) RateLimiter \<Rightarrow> ('op \<Rightarrow> exn + 'r) \<Rightarrow> int \<Rightarrow> 'op QueuedItem \<Rightarrow> real
     \<Rightarrow> ('op, 'r) RateLimiter \<times> 'op pc \<times> 'op effect list" where
  "after_channel_sleep s run channel_id item t4 =
     (case channel_buckets s channel_id of
        None \<Rightarrow> (s, Crashed (Raised ''no bucket''), [])
      | Some b \<Rightarrow>
          (case consume b t4 1 of
             (b1, True) \<Rightarrow>
               (let s1 = s\<lparr>channel_buckets := (channel_buckets s)(channel_id \<mapsto> b1)\<rparr>
                in case run (coro item) of
                     Inr result \<Rightarrow>
                       (s1\<lparr>futures := resolve (futures s1) (future item) (Result result),
                           stats := (stats s1)\<lparr>messages_sent := messages_sent (stats s1) + 1\<rparr>\<rparr>,
                        Head, [Invoked (coro item)])
                   | Inl e \<Rightarrow>
                       if is_exception e then
                         (s1\<lparr>futures := resolve (futures s1) (future item) (Exception e)\<rparr>,
                          Head, [Invoked (coro item)])
                       else (s1, Crashed e, [Invoked (coro item)]))
           | (b1, False) \<Rightarrow>
               (let s1 = s\<lparr>channel_buckets := (channel_buckets s)(channel_id \<mapsto> b1)\<rparr>
                in case channel_queues s1 channel_id of
                     None \<Rightarrow> (s1, Crashed (Raised ''no queue''), [])
                   | Some q \<Rightarrow>
                       (s1\<lparr>channel_queues := (channel_queues s1)(channel_id \<mapsto> dq_appendleft q item)\<rparr>,
                        Head, [Slept (1 / 10)]))))"

text \<open>One run of the task from a suspension point to the next, with the clock readings
  \<open>ta\<close>, \<open>tb\<close> of the (at most two) \<^verbatim>\<open>time.time()\<close> calls made on the way.\<close>

definition task_step ::
  "('op \<Rightarrow> exn + 'r) \<Rightarrow> int \<Rightarrow> real \<Rightarrow> real \<Rightarrow> ('op, 'r) RateLimiter \<times> 'op pc
     \<Rightarrow> ('op, 'r) RateLimiter \<times> 'op pc \<times> 'op effect list" where
  "task_step run channel_id ta tb cfg =
     (case cfg of (s, p) \<Rightarrow>
        (case p of
           Idle \<Rightarrow> (s, Idle, [])
         | Start \<Rightarrow>
             (case task_start s channel_id ta of
                (s1, Some e) \<Rightarrow> (s1, Crashed e, [])
              | (s1, None) \<Rightarrow> loop_head s1 channel_id tb)
         | Head \<Rightarrow> loop_head s channel_id tb
         | Global_sleep item \<Rightarrow> after_global_sleep s channel_id item ta tb
         | Channel_sleep item \<Rightarrow> after_channel_sleep s run channel_id item ta
         | Crashed e \<Rightarrow> (s, Crashed e, [])))"

section \<open>Schedules\<close>

text \<open>
  What can happen around one channel: a call of \<^verbatim>\<open>enqueue_send\<close> for it, a run of its
  drain task up to the next suspension point, a \<^verbatim>\<open>handle_rate_limit_response\<close>, or a
  \<^verbatim>\<open>configure\<close>. A
  configuration is the limiter, the control point of the channel's task and the effects of
  the task so far.
\<close>

datatype 'op event =
    Enqueue 'op real
  | Step real real
  | Backoff "int option" real real real
  | Configure "real option" "real option" "real option" "int option" "bool option"

type_synonym ('op, 'r) config = "('op, 'r) RateLimiter \<times> 'op pc \<times> 'op effect list"

definition sys_step ::
  "('op \<Rightarrow> exn + 'r) \<Rightarrow> int \<Rightarrow> ('op, 'r) config \<Rightarrow> 'op event \<Rightarrow> ('op, 'r) config" where
  "sys_step run channel_id cfg ev =
     (case cfg of (s, p, tr) \<Rightarrow>
        (case ev of
           Enqueue c now \<Rightarrow>
             (let s1 = fst (enqueue_send s channel_id c now)
              in (s1,
                  (if channel_id \<notin> processing_tasks s \<and> channel_id \<in> processing_tasks s1
                   then Start else p),
                  tr))
         | Step ta tb \<Rightarrow>
             (case task_step run channel_id ta tb (s, p) of
                (s1, p1, effs) \<Rightarrow> (s1, p1, tr @ effs))
         | Backoff c retry_after t_create t_reset \<Rightarrow>
             (fst (handle_rate_limit_response s c retry_after t_create t_reset), p, tr)
         | Configure crl cw sp mqs en \<Rightarrow> (configure s crl cw sp mqs en, p, tr)))"

definition exec ::
  "('op \<Rightarrow> exn + 'r) \<Rightarrow> int \<Rightarrow> ('op, 'r) config \<Rightarrow> 'op event list \<Rightarrow> ('op, 'r) config" where
  "exec run channel_id cfg evs = foldl (sys_step run channel_id) cfg evs"

fun invoked :: "'op effect list \<Rightarrow> 'op list" where
  "invoked [] = []"
| "invoked (Invoked c # es) = c # invoked es"
| "invoked (Slept d # es) = invoked es"

fun enqueued :: "'op event list \<Rightarrow> 'op list" where
  "enqueued [] = []"
| "enqueued (Enqueue c now # evs) = c # enqueued evs"
| "enqueued (Step ta tb # evs) = enqueued evs"
| "enqueued (Backoff c r t1 t2 # evs) = enqueued evs"
| "enqueued (Configure crl cw sp mqs en # evs) = enqueued evs"

text \<open>Several \<^verbatim>\<open>enqueue_send\<close> calls in a row for one channel, with the handles returned.\<close>

fun enqueue_all ::
  "('op, 'r) RateLimiter \<Rightarrow> int \<Rightarrow> ('op \<times> real) list
     \<Rightarrow> ('op, 'r) RateLimiter \<times> (exn + 'op handle) list" where
  "enqueue_all s channel_id [] = (s, [])"
| "enqueue_all s channel_id ((c, now) # cs) =
     (case enqueue_send s channel_id c now of
        (s1, h) \<Rightarrow> (case enqueue_all s1 channel_id cs of (s2, hs) \<Rightarrow> (s2, h # hs)))"

section \<open>Concrete states\<close>

text \<open>
  The per-channel bucket of a fresh limiter (5 tokens, 1 token per second), created at
  clock reading 0.
\<close>

definition fresh_channel_bucket :: RateLimitBucket where
  "fresh_channel_bucket = \<lparr>tokens = 5, capacity = 5, refill_rate = 1, last_refill = 0\<rparr>"

text \<open>The same bucket, empty.\<close>

definition empty_channel_bucket :: RateLimitBucket where
  "empty_channel_bucket = \<lparr>tokens = 0, capacity = 5, refill_rate = 1, last_refill = 0\<rparr>"

text \<open>
  A fresh limiter on which \<^verbatim>\<open>handle_rate_limit_response(42, 2.0)\<close> has run, everything at
  clock reading 0.
\<close>

definition backoff_example :: "(unit, unit) RateLimiter" where
  "backoff_example = fst (handle_rate_limit_response (init_limiter 0 0) (Some 42) 2 0 0)"

text \<open>The bucket of channel 42 in that limiter.\<close>

definition backoff_bucket :: RateLimitBucket where
  "backoff_bucket = \<lparr>tokens = 0, capacity = 5, refill_rate = 1, last_refill = 2\<rparr>"

text \<open>
  The queued items that \<^verbatim>\<open>enqueue_send\<close> builds for a list of calls (operation and clock
  reading), the first future being stored at address \<open>base\<close>.
\<close>

fun new_items :: "nat \<Rightarrow> ('op \<times> real) list \<Rightarrow> 'op QueuedItem list" where
  "new_items base [] = []"
| "new_items base ((c, now) # cs) = \<lparr>coro = c, future = base, timestamp = now\<rparr> # new_items (Suc base) cs"

text \<open>A fresh limiter with limiting switched off.\<close>

definition disabled_limiter :: "(nat, nat) RateLimiter" where
  "disabled_limiter = configure (init_limiter 0 0) None None None None (Some False)"

text \<open>A fresh limiter whose queues hold at most two items.\<close>

definition small_limiter :: "(nat, nat) RateLimiter" where
  "small_limiter = configure (init_limiter 0 0) None None None (Some 2) None"

text \<open>
  A target operation that returns its own number, except for number 13, which raises.
\<close>

definition run_example :: "nat \<Rightarrow> exn + nat" where
  "run_example c = (if c = 13 then Inl (Raised ''unlucky'') else Inr c)"

text \<open>That limiter after two calls for channel 7 have been enqueued and none drained.\<close>

definition full_queue_limiter :: "(nat, nat) RateLimiter" where
  "full_queue_limiter = fst (enqueue_all small_limiter 7 [(1, 0), (2, 0)])"

text \<open>The queue of channel 7 in that limiter.\<close>

definition full_queue :: "nat QueuedItem deque" where
  "full_queue =
     \<lparr>items = [\<lparr>coro = 1, future = 0, timestamp = 0\<rparr>, \<lparr>coro = 2, future = 1, timestamp = 0\<rparr>],
      maxlen = 2\<rparr>"

text \<open>A fresh limiter at clock reading 10 (its audit bucket is full).\<close>

definition audit_limiter :: "(nat, nat) RateLimiter" where
  "audit_limiter = init_limiter 10 10"

text \<open>A fresh limiter after \<^verbatim>\<open>configure(channel_rate_limit=0.5)\<close>.\<close>

definition slow_limiter :: "(nat, nat) RateLimiter" where
  "slow_limiter = configure (init_limiter 0 0) (Some (1 / 2)) None None None None"

text \<open>The bucket that limiter creates for a channel at clock reading 0.\<close>

definition slow_bucket :: RateLimitBucket where
  "slow_bucket = \<lparr>tokens = 1 / 2, capacity = 1 / 2, refill_rate = 1 / 10, last_refill = 0\<rparr>"



section \<open>Views of a configuration\<close>

text \<open>The item a task holds between popping it and executing or re-queueing it.\<close>

fun held :: "'op pc \<Rightarrow> 'op QueuedItem list" where
  "held (Global_sleep item) = [item]"
| "held (Channel_sleep item) = [item]"
| "held Idle = []"
| "held Start = []"
| "held Head = []"
| "held (Crashed e) = []"


text \<open>The items in a channel's queue, none if the queue does not exist yet.\<close>

definition queue_items :: "('op, 'r) RateLimiter \<Rightarrow> int \<Rightarrow> 'op QueuedItem list" where
  "queue_items s channel_id = (case channel_queues s channel_id of None \<Rightarrow> [] | Some q \<Rightarrow> items q)"




text \<open>
  The future at address \<open>fid\<close> exists and belongs to no item that the channel's queue or
  its task holds.
\<close>

fun orphan :: "nat \<Rightarrow> int \<Rightarrow> ('op, 'r) config \<Rightarrow> bool" where
  "orphan fid channel_id (s, p, tr) =
     (fid < length (futures s) \<and>
      (\<forall>item \<in> set (held p @ queue_items s channel_id). future item \<noteq> fid))"

text \<open>
  \<open>small_limiter\<close> with a full queue for channel 7, after \<^verbatim>\<open>configure(max_queue_size=3)\<close>
  and one more \<^verbatim>\<open>enqueue_send\<close>.
\<close>

definition stale_example :: "(nat, nat) RateLimiter" where
  "stale_example =
     fst (enqueue_send (configure full_queue_limiter None None None (Some 3) None) 7 3 0)"

text \<open>The drain task of channel 7 running to the end, all at clock reading 0.\<close>

definition drain_schedule :: "nat event list" where
  "drain_schedule = replicate 7 (Step 0 0)"

section \<open>Facts about the bucket\<close>

lemma refill_upper: "tokens (refill b now) \<le> capacity b"
  by (simp add: refill_def Let_def)

lemma refill_fields:
  "capacity (refill b now) = capacity b"
  "refill_rate (refill b now) = refill_rate b"
  "last_refill (refill b now) = now"
  by (simp_all add: refill_def Let_def)

lemma refill_lower:
  assumes "0 \<le> tokens b" "tokens b \<le> capacity b" "last_refill b \<le> now" "0 \<le> refill_rate b"
  shows "0 \<le> tokens (refill b now)"
proof -
  have "0 \<le> (now - last_refill b) * refill_rate b"
    using assms by simp
  then show ?thesis
    using assms by (simp add: refill_def Let_def)
qed

lemma backoff_example_bucket: "channel_buckets backoff_example 42 = Some backoff_bucket"
  by (simp add: backoff_example_def backoff_bucket_def handle_rate_limit_response_def
      init_limiter_def get_channel_bucket_def reset_bucket_def Let_def)

text \<open>
  Claim C1, as the specification states it, fails: on a fresh limiter,
  \<^verbatim>\<open>handle_rate_limit_response(42, 2.0)\<close> leaves channel 42's bucket with 0 tokens and
  \<open>last_refill\<close> 2 seconds ahead; a \<open>refill\<close>, \<open>wait_time\<close> or \<open>consume\<close> at the same clock
  reading then sets the tokens to -2 and moves \<open>last_refill\<close> back.
\<close>

theorem bucket_invariant_counterexample:
  "channel_buckets backoff_example 42 = Some backoff_bucket \<and>
   bucket_inv backoff_bucket \<and>
   tokens (refill backoff_bucket 0) = - 2 \<and>
   \<not> bucket_inv (refill backoff_bucket 0) \<and>
   \<not> bucket_inv (fst (wait_time backoff_bucket 0 1)) \<and>
   \<not> bucket_inv (fst (consume backoff_bucket 0 1)) \<and>
   last_refill (refill backoff_bucket 0) < last_refill backoff_bucket"
  using backoff_example_bucket
  by (simp add: backoff_bucket_def bucket_inv_def refill_def wait_time_def consume_def Let_def)

text \<open>
  Claim C1, amended. After every \<open>refill\<close> the tokens are at most the capacity, whatever
  the bucket and the clock reading. The lower bound \<open>0 \<le> tokens\<close> and a non-decreasing
  \<open>last_refill\<close> hold for \<open>refill\<close>, \<open>wait_time\<close> and \<open>consume\<close> of a non-negative amount
  when the bucket satisfies the invariant, its refill rate is not negative and the clock
  reading is not earlier than \<open>last_refill\<close>; the reset of \<^verbatim>\<open>handle_rate_limit_response\<close>
  keeps the invariant at the moment it is made.
\<close>

theorem bucket_invariant_outside_backoff:
  "tokens (refill b now) \<le> capacity (refill b now) \<and>
   (bucket_inv b \<and> last_refill b \<le> now \<and> 0 \<le> refill_rate b \<and> 0 \<le> n \<longrightarrow>
      bucket_inv (refill b now) \<and> last_refill b \<le> last_refill (refill b now) \<and>
      bucket_inv (fst (consume b now n)) \<and> last_refill b \<le> last_refill (fst (consume b now n)) \<and>
      bucket_inv (fst (wait_time b now n)) \<and> last_refill b \<le> last_refill (fst (wait_time b now n))) \<and>
   (bucket_inv b \<longrightarrow> bucket_inv (reset_bucket b now retry_after))"
proof -
  have up: "tokens (refill b now) \<le> capacity b"
    by (rule refill_upper)
  have inside: "bucket_inv (refill b now) \<and> last_refill b \<le> last_refill (refill b now) \<and>
      bucket_inv (fst (consume b now n)) \<and> last_refill b \<le> last_refill (fst (consume b now n)) \<and>
      bucket_inv (fst (wait_time b now n)) \<and> last_refill b \<le> last_refill (fst (wait_time b now n))"
    if inv: "bucket_inv b" and t: "last_refill b \<le> now" and r: "0 \<le> refill_rate b" and n: "0 \<le> n"
  proof -
    have lo: "0 \<le> tokens (refill b now)"
      using inv t r by (intro refill_lower) (simp_all add: bucket_inv_def)
    have "bucket_inv (refill b now)"
      using lo up by (simp add: bucket_inv_def refill_fields)
    moreover have "bucket_inv (fst (consume b now n))"
      using lo up n by (simp add: consume_def Let_def bucket_inv_def refill_fields)
    moreover have "bucket_inv (fst (wait_time b now n))"
      using lo up by (simp add: wait_time_def Let_def bucket_inv_def refill_fields)
    moreover have "last_refill b \<le> last_refill (refill b now)"
      "last_refill b \<le> last_refill (fst (consume b now n))"
      "last_refill b \<le> last_refill (fst (wait_time b now n))"
      using t by (simp_all add: consume_def wait_time_def Let_def refill_fields)
    ultimately show ?thesis
      by simp
  qed
  have "bucket_inv b \<longrightarrow> bucket_inv (reset_bucket b now retry_after)"
    by (auto simp add: bucket_inv_def reset_bucket_def)
  with up inside show ?thesis
    by (simp add: refill_fields)
qed

theorem bucket_invariant_outside_backoff_witness:
  "bucket_inv fresh_channel_bucket \<and> last_refill fresh_channel_bucket \<le> 3 \<and>
   0 \<le> refill_rate fresh_channel_bucket \<and>
   bucket_inv (refill fresh_channel_bucket 3) \<and>
   bucket_inv (fst (consume fresh_channel_bucket 3 1)) \<and>
   tokens (fst (consume fresh_channel_bucket 3 1)) = 4 \<and>
   bucket_inv (fst (wait_time fresh_channel_bucket 3 1)) \<and>
   last_refill fresh_channel_bucket \<le> last_refill (fst (consume fresh_channel_bucket 3 1)) \<and>
   bucket_inv (reset_bucket fresh_channel_bucket 3 2)"
  using bucket_invariant_outside_backoff [of fresh_channel_bucket 3 1 2]
  by (simp add: fresh_channel_bucket_def bucket_inv_def consume_def refill_def Let_def)

text \<open>
  Claim C2, as stated, fails: right after \<^verbatim>\<open>handle_rate_limit_response(42, 2.0)\<close> on a
  fresh limiter, \<^verbatim>\<open>wait_time(1)\<close> on channel 42's bucket at the same clock reading returns
  3, not 2.
\<close>

theorem wait_after_backoff_counterexample:
  "channel_buckets backoff_example 42 = Some backoff_bucket \<and>
   snd (wait_time backoff_bucket 0 1) = Inr 3 \<and>
   snd (wait_time backoff_bucket 0 1) \<noteq> Inr 2"
  using backoff_example_bucket
  by (simp add: backoff_bucket_def wait_time_def refill_def Let_def)

text \<open>
  Claim C2, amended. On a fresh limiter, after \<^verbatim>\<open>handle_rate_limit_response(c, retry_after)\<close>
  whose reset read the clock at \<open>t_reset\<close>, channel \<open>c\<close>'s bucket has 0 tokens and
  \<open>last_refill = t_reset + retry_after\<close>, and \<^verbatim>\<open>wait_time(1)\<close> at a clock reading \<open>t_w\<close> before
  \<open>t_reset + retry_after + 1\<close> returns \<open>retry_after + 1 - (t_w - t_reset)\<close>: the time left
  until the deadline plus the time to refill one token. At the same clock reading and with
  \<open>retry_after = 2\<close> that is 3, and never 0.
\<close>

theorem wait_after_backoff:
  assumes "t_w < t_reset + retry_after + 1"
  shows "channel_buckets
           (fst (handle_rate_limit_response (init_limiter tg ta) (Some c) retry_after t_create t_reset)) c
         = Some \<lparr>tokens = 0, capacity = 5, refill_rate = 1, last_refill = t_reset + retry_after\<rparr> \<and>
         snd (wait_time \<lparr>tokens = 0, capacity = 5, refill_rate = 1, last_refill = t_reset + retry_after\<rparr> t_w 1)
         = Inr (retry_after + 1 - (t_w - t_reset)) \<and>
         0 < retry_after + 1 - (t_w - t_reset)"
proof -
  have "channel_buckets
           (fst (handle_rate_limit_response (init_limiter tg ta) (Some c) retry_after t_create t_reset)) c
         = Some \<lparr>tokens = 0, capacity = 5, refill_rate = 1, last_refill = t_reset + retry_after\<rparr>"
    by (simp add: handle_rate_limit_response_def init_limiter_def get_channel_bucket_def
        reset_bucket_def Let_def)
  moreover have "min 5 (t_w - (t_reset + retry_after)) = t_w - (t_reset + retry_after)"
    using assms by simp
  then have "snd (wait_time \<lparr>tokens = 0, capacity = 5, refill_rate = 1, last_refill = t_reset + retry_after\<rparr> t_w 1)
         = Inr (retry_after + 1 - (t_w - t_reset))"
    using assms by (simp add: wait_time_def refill_def Let_def)
  ultimately show ?thesis
    using assms by simp
qed

theorem wait_after_backoff_witness:
  "(0::real) < 0 + 2 + 1 \<and>
   channel_buckets backoff_example 42 = Some backoff_bucket \<and>
   snd (wait_time backoff_bucket 0 1) = Inr (2 + 1 - (0 - 0))"
  using wait_after_backoff [of 0 0 2 0 0 42 0]
  by (simp add: backoff_example_def backoff_bucket_def)

text \<open>
  Claim C5 at an input where the code breaks it. After \<^verbatim>\<open>configure(channel_rate_limit=0.5)\<close>
  the bucket that \<^verbatim>\<open>_get_channel_bucket\<close> creates holds half a token and has capacity one
  half. \<^verbatim>\<open>wait_time(1)\<close> returns 5 seconds, and \<^verbatim>\<open>consume(1)\<close> exactly 5 seconds later
  returns \<^verbatim>\<open>False\<close>, as it does at every clock reading: the refill never exceeds the
  capacity. In the drain task the call is popped, waited for, and put back.
\<close>

theorem wait_then_consume_fails:
  "get_channel_bucket slow_limiter 7 0 =
     Inr (slow_limiter\<lparr>channel_buckets := (channel_buckets slow_limiter)(7 \<mapsto> slow_bucket)\<rparr>,
          slow_bucket) \<and>
   snd (wait_time slow_bucket 0 1) = Inr 5 \<and>
   \<not> snd (consume (fst (wait_time slow_bucket 0 1)) (0 + 5) 1) \<and>
   (\<forall>t. \<not> snd (consume (fst (wait_time slow_bucket 0 1)) t 1)) \<and>
   snd (exec run_example 7 (slow_limiter, Idle, []) [Enqueue 1 0, Step 0 0, Step 0 0, Step 5 5]) =
     (Head, [Slept 5, Slept (1 / 10)]) \<and>
   queue_items (fst (exec run_example 7 (slow_limiter, Idle, [])
     [Enqueue 1 0, Step 0 0, Step 0 0, Step 5 5])) 7 = [\<lparr>coro = 1, future = 0, timestamp = 0\<rparr>]"
proof -
  have b: "get_channel_bucket slow_limiter 7 0 =
     Inr (slow_limiter\<lparr>channel_buckets := (channel_buckets slow_limiter)(7 \<mapsto> slow_bucket)\<rparr>,
          slow_bucket)"
    by (simp add: get_channel_bucket_def slow_limiter_def slow_bucket_def configure_def
        init_limiter_def Let_def)
  have w: "wait_time slow_bucket 0 1 = (slow_bucket, Inr 5)"
    by (simp add: wait_time_def refill_def slow_bucket_def Let_def)
  have le: "tokens (refill slow_bucket t) \<le> 1 / 2" for t
    using refill_upper [of slow_bucket t] by (simp add: slow_bucket_def)
  have never: "\<not> snd (consume slow_bucket t 1)" for t
    using le [of t] by (simp add: consume_def Let_def)
  have e: "snd (exec run_example 7 (slow_limiter, Idle, []) [Enqueue 1 0, Step 0 0, Step 0 0, Step 5 5]) =
     (Head, [Slept 5, Slept (1 / 10)])"
    "queue_items (fst (exec run_example 7 (slow_limiter, Idle, [])
       [Enqueue 1 0, Step 0 0, Step 0 0, Step 5 5])) 7 = [\<lparr>coro = 1, future = 0, timestamp = 0\<rparr>]"
    by (simp_all add: exec_def slow_limiter_def configure_def init_limiter_def queue_items_def
        sys_step_def task_step_def task_start_def loop_head_def after_global_sleep_def
        after_channel_sleep_def enqueue_send_def get_channel_queue_def get_channel_lock_def
        get_channel_bucket_def wait_time_def consume_def refill_def dq_append_def
        dq_appendleft_def sleep_if_positive_def Let_def)
  show ?thesis
    using b w never e by simp
qed

text \<open>
  Claim C8. \<^verbatim>\<open>consume(n)\<close> refills first; if the refilled tokens are at least \<open>n\<close> it
  returns \<^verbatim>\<open>True\<close> and the bucket is the refilled one with exactly \<open>n\<close> tokens less;
  otherwise it returns \<^verbatim>\<open>False\<close> and the bucket is exactly the refilled one.
\<close>

theorem consume_refills_then_takes:
  "(n \<le> tokens (refill b now) \<longrightarrow>
      snd (consume b now n) \<and>
      fst (consume b now n) = (refill b now)\<lparr>tokens := tokens (refill b now) - n\<rparr> \<and>
      tokens (fst (consume b now n)) = tokens (refill b now) - n \<and>
      last_refill (fst (consume b now n)) = now) \<and>
   (\<not> n \<le> tokens (refill b now) \<longrightarrow>
      \<not> snd (consume b now n) \<and> fst (consume b now n) = refill b now)"
  by (simp add: consume_def Let_def refill_fields)

theorem consume_refills_then_takes_witness:
  "(1::real) \<le> tokens (refill empty_channel_bucket 2) \<and>
   snd (consume empty_channel_bucket 2 1) \<and>
   tokens (fst (consume empty_channel_bucket 2 1)) = 1 \<and>
   \<not> (3::real) \<le> tokens (refill empty_channel_bucket 2) \<and>
   \<not> snd (consume empty_channel_bucket 2 3) \<and>
   tokens (fst (consume empty_channel_bucket 2 3)) = 2 \<and>
   last_refill (fst (consume empty_channel_bucket 2 3)) = 2"
  using consume_refills_then_takes [of 1 empty_channel_bucket 2]
    consume_refills_then_takes [of 3 empty_channel_bucket 2]
  by (simp add: empty_channel_bucket_def refill_def Let_def)

section \<open>Facts about the limiter\<close>


lemma enqueue_send_admitted:
  assumes "enabled s" and "channel_queues s ch = Some q"
    and "int (length (items q)) < max_queue_size s"
  shows "enqueue_send s ch c now =
    (s\<lparr>channel_queues := (channel_queues s)
          (ch \<mapsto> dq_append q \<lparr>coro = c, future = length (futures s), timestamp = now\<rparr>),
       channel_locks := insert ch (channel_locks s),
       processing_tasks := insert ch (processing_tasks s),
       stats := (stats s)\<lparr>messages_queued := messages_queued (stats s) + 1\<rparr>,
       futures := futures s @ [Pending]\<rparr>,
     Inr (Future_at (length (futures s))))"
  using assms
  by (simp add: enqueue_send_def get_channel_queue_def get_channel_lock_def Let_def insert_absorb)



lemma dq_append_full:
  "items q = y # ys \<Longrightarrow> length (items q) = maxlen q \<Longrightarrow> dq_append q x = q\<lparr>items := ys @ [x]\<rparr>"
  by (simp add: dq_append_def Let_def)



lemma new_items_length [simp]: "length (new_items base cs) = length cs"
  by (induction base cs rule: new_items.induct) simp_all

lemma new_items_coro [simp]: "map coro (new_items base cs) = map fst cs"
  by (induction base cs rule: new_items.induct) simp_all







lemma full_queue_limiter_fields:
  "enabled full_queue_limiter" "max_queue_size full_queue_limiter = 2"
  "channel_queues full_queue_limiter 7 = Some full_queue"
  "futures full_queue_limiter = [Pending, Pending]"
  "stats full_queue_limiter =
     \<lparr>rate_limit_hits = 0, messages_queued = 2, messages_sent = 0, queue_overflows = 0\<rparr>"
  by (simp_all add: full_queue_limiter_def full_queue_def small_limiter_def configure_def
      init_limiter_def enqueue_send_def get_channel_queue_def get_channel_lock_def dq_append_def
      Let_def)

lemma small_limiter_fields:
  "enabled small_limiter" "max_queue_size small_limiter = 2"
  "channel_queues small_limiter = Map.empty" "futures small_limiter = []"
  "stats small_limiter =
     \<lparr>rate_limit_hits = 0, messages_queued = 0, messages_sent = 0, queue_overflows = 0\<rparr>"
  by (simp_all add: small_limiter_def configure_def init_limiter_def)


text \<open>
  Claim C9. With the \<open>enabled\<close> flag off, \<^verbatim>\<open>enqueue_send\<close> returns the task that wraps the
  operation itself and leaves the whole limiter as it was (no queue, lock, bucket, counter
  or future is created or changed), and \<^verbatim>\<open>execute_with_audit_log_limit\<close> invokes the
  operation, returns its outcome and leaves the limiter as it was.
\<close>

theorem disabled_bypasses:
  "\<not> enabled s \<Longrightarrow>
     enqueue_send s ch c now = (s, Inr (Task_of c)) \<and>
     execute_with_audit_log_limit s run c t1 t2 t3 = (s, run c, [Invoked c])"
  by (simp add: enqueue_send_def execute_with_audit_log_limit_def)

theorem disabled_bypasses_witness:
  "\<not> enabled disabled_limiter \<and>
   enqueue_send disabled_limiter 7 13 0 = (disabled_limiter, Inr (Task_of 13)) \<and>
   execute_with_audit_log_limit disabled_limiter run_example 13 0 0 0 =
     (disabled_limiter, Inl (Raised ''unlucky''), [Invoked 13])"
  using disabled_bypasses [of disabled_limiter 7 13 0 run_example 0 0 0]
  by (simp add: disabled_limiter_def configure_def init_limiter_def run_example_def)

text \<open>
  Claim C7. With limiting enabled, if the first \<^verbatim>\<open>wait_time\<close> returns and the one
  \<^verbatim>\<open>consume(1)\<close> that follows fails, the audit bucket ends as the second \<^verbatim>\<open>wait_time\<close>
  leaves it, that is refilled and with no token taken; the operation is invoked exactly
  once, after the sleeps, and its outcome is what the call returns. If the \<^verbatim>\<open>consume(1)\<close>
  succeeds, the bucket ends as \<^verbatim>\<open>consume\<close> leaves it and the operation is likewise invoked
  once and its outcome returned.
\<close>

theorem audit_consumes_once:
  "(enabled s \<and> wait_time (audit_log_bucket s) t1 1 = (b1, Inr w1) \<and> consume b1 t2 1 = (b2, False) \<and>
    wait_time b2 t3 1 = (b3, Inr w2) \<longrightarrow>
      execute_with_audit_log_limit s run c t1 t2 t3 =
        (s\<lparr>audit_log_bucket := b3\<rparr>, run c,
         sleep_if_positive w1 @ sleep_if_positive w2 @ [Invoked c]) \<and>
      b3 = refill b2 t3 \<and>
      invoked (sleep_if_positive w1 @ sleep_if_positive w2 @ [Invoked c]) = [c]) \<and>
   (enabled s \<and> wait_time (audit_log_bucket s) t1 1 = (b1, Inr w1) \<and> consume b1 t2 1 = (b2, True) \<longrightarrow>
      execute_with_audit_log_limit s run c t1 t2 t3 =
        (s\<lparr>audit_log_bucket := b2\<rparr>, run c, sleep_if_positive w1 @ [Invoked c]) \<and>
      invoked (sleep_if_positive w1 @ [Invoked c]) = [c])"
proof -
  have inv: "invoked (sleep_if_positive w @ es) = invoked es" for w :: real and es :: "'a effect list"
    by (simp add: sleep_if_positive_def)
  have "b3 = refill b2 t3" if "wait_time b2 t3 1 = (b3, Inr w2)"
    using that by (auto simp add: wait_time_def Let_def split: if_splits)
  then show ?thesis
    by (auto simp add: execute_with_audit_log_limit_def inv)
qed


theorem audit_consumes_once_witness:
  "enabled audit_limiter \<and>
   wait_time (audit_log_bucket audit_limiter) 10 1 =
     (\<lparr>tokens = 2, capacity = 2, refill_rate = 2, last_refill = 10\<rparr>, Inr 0) \<and>
   consume \<lparr>tokens = 2, capacity = 2, refill_rate = 2, last_refill = 10\<rparr> 9 1 =
     (\<lparr>tokens = 0, capacity = 2, refill_rate = 2, last_refill = 9\<rparr>, False) \<and>
   wait_time \<lparr>tokens = 0, capacity = 2, refill_rate = 2, last_refill = 9\<rparr> 9 1 =
     (\<lparr>tokens = 0, capacity = 2, refill_rate = 2, last_refill = 9\<rparr>, Inr (1 / 2)) \<and>
   execute_with_audit_log_limit audit_limiter run_example 13 10 9 9 =
     (audit_limiter\<lparr>audit_log_bucket := \<lparr>tokens = 0, capacity = 2, refill_rate = 2, last_refill = 9\<rparr>\<rparr>,
      Inl (Raised ''unlucky''), [Slept (1 / 2), Invoked 13]) \<and>
   consume \<lparr>tokens = 2, capacity = 2, refill_rate = 2, last_refill = 10\<rparr> 10 1 =
     (\<lparr>tokens = 1, capacity = 2, refill_rate = 2, last_refill = 10\<rparr>, True) \<and>
   execute_with_audit_log_limit audit_limiter run_example 5 10 10 10 =
     (audit_limiter\<lparr>audit_log_bucket := \<lparr>tokens = 1, capacity = 2, refill_rate = 2, last_refill = 10\<rparr>\<rparr>,
      Inr 5, [Invoked 5])"
proof -
  have w1: "wait_time (audit_log_bucket audit_limiter) 10 1 =
     (\<lparr>tokens = 2, capacity = 2, refill_rate = 2, last_refill = 10\<rparr>, Inr 0)"
    by (simp add: audit_limiter_def init_limiter_def wait_time_def refill_def Let_def)
  have c1: "consume \<lparr>tokens = 2, capacity = 2, refill_rate = 2, last_refill = 10\<rparr> 9 1 =
     (\<lparr>tokens = 0, capacity = 2, refill_rate = 2, last_refill = 9\<rparr>, False)"
    by (simp add: consume_def refill_def Let_def)
  have w2: "wait_time \<lparr>tokens = 0, capacity = 2, refill_rate = 2, last_refill = 9\<rparr> 9 1 =
     (\<lparr>tokens = 0, capacity = 2, refill_rate = 2, last_refill = 9\<rparr>, Inr (1 / 2))"
    by (simp add: wait_time_def refill_def Let_def)
  have c2: "consume \<lparr>tokens = 2, capacity = 2, refill_rate = 2, last_refill = 10\<rparr> 10 1 =
     (\<lparr>tokens = 1, capacity = 2, refill_rate = 2, last_refill = 10\<rparr>, True)"
    by (simp add: consume_def refill_def Let_def)
  have en: "enabled audit_limiter"
    by (simp add: audit_limiter_def init_limiter_def)
  show ?thesis
    using audit_consumes_once [where s = audit_limiter and ?t1.0 = 10 and ?t2.0 = 9 and ?t3.0 = 9
        and ?b1.0 = "\<lparr>tokens = 2, capacity = 2, refill_rate = 2, last_refill = 10\<rparr>"
        and ?w1.0 = 0
        and ?b2.0 = "\<lparr>tokens = 0, capacity = 2, refill_rate = 2, last_refill = 9\<rparr>"
        and ?b3.0 = "\<lparr>tokens = 0, capacity = 2, refill_rate = 2, last_refill = 9\<rparr>"
        and ?w2.0 = "1 / 2" and run = run_example and c = 13]
      audit_consumes_once [where s = audit_limiter and ?t1.0 = 10 and ?t2.0 = 10 and ?t3.0 = 10
        and ?b1.0 = "\<lparr>tokens = 2, capacity = 2, refill_rate = 2, last_refill = 10\<rparr>"
        and ?w1.0 = 0
        and ?b2.0 = "\<lparr>tokens = 1, capacity = 2, refill_rate = 2, last_refill = 10\<rparr>"
        and run = run_example and c = 5]
    by (simp add: w1 c1 w2 c2 en run_example_def sleep_if_positive_def)
qed

lemma configure_max_queue_size:
  "configure s None None None (Some m) None = s\<lparr>max_queue_size := m\<rparr>"
  by (simp add: configure_def)

lemma configure_keeps_queues:
  "channel_queues (configure s crl cw sp mqs en) = channel_queues s"
  by (simp add: configure_def Let_def split: option.splits)

lemma enqueue_send_stale_maxlen:
  assumes "enabled s" and "channel_queues s ch = Some q" and "items q = x # xs"
    and "length (items q) = maxlen q" and "int (maxlen q) < m"
  shows "enqueue_send (configure s None None None (Some m) None) ch c now =
    (s\<lparr>channel_queues := (channel_queues s)
          (ch \<mapsto> q\<lparr>items := xs @ [\<lparr>coro = c, future = length (futures s), timestamp = now\<rparr>]\<rparr>),
       channel_locks := insert ch (channel_locks s),
       processing_tasks := insert ch (processing_tasks s),
       max_queue_size := m,
       stats := (stats s)\<lparr>messages_queued := messages_queued (stats s) + 1\<rparr>,
       futures := futures s @ [Pending]\<rparr>,
     Inr (Future_at (length (futures s))))"
proof -
  define s1 where "s1 = s\<lparr>max_queue_size := m\<rparr>"
  have "enabled s1" "channel_queues s1 ch = Some q" "int (length (items q)) < max_queue_size s1"
    using assms by (simp_all add: s1_def)
  from enqueue_send_admitted [OF this, of c now] show ?thesis
    using dq_append_full [OF assms(3,4)]
    by (simp add: configure_max_queue_size s1_def)
qed
section \<open>The order of dispatch\<close>

lemma invoked_append [simp]: "invoked (xs @ ys) = invoked xs @ invoked ys"
  by (induction xs rule: invoked.induct) simp_all

lemma invoked_sleep [simp]: "invoked (sleep_if_positive w) = []"
  by (simp add: sleep_if_positive_def)

lemma enqueued_append [simp]: "enqueued (xs @ ys) = enqueued xs @ enqueued ys"
  by (induction xs rule: enqueued.induct) simp_all

lemma exec_snoc: "exec run ch cfg (evs @ [e]) = sys_step run ch (exec run ch cfg evs) e"
  by (simp add: exec_def)

lemma backoff_keeps:
  "channel_queues (fst (handle_rate_limit_response s c r t1 t2)) = channel_queues s"
  "enabled (fst (handle_rate_limit_response s c r t1 t2)) = enabled s"
  "max_queue_size (fst (handle_rate_limit_response s c r t1 t2)) = max_queue_size s"
  "processing_tasks (fst (handle_rate_limit_response s c r t1 t2)) = processing_tasks s"
  "futures (fst (handle_rate_limit_response s c r t1 t2)) = futures s"
  by (auto simp add: handle_rate_limit_response_def get_channel_bucket_def Let_def
      split: option.splits sum.splits prod.splits if_splits)

lemma loop_head_cases:
  obtains
    (none) "channel_queues s ch = None"
      "loop_head s ch t = (s, Crashed (Raised ''no queue''), [])"
  | (empty) q where "channel_queues s ch = Some q" "items q = []"
      "loop_head s ch t = (s\<lparr>processing_tasks := processing_tasks s - {ch}\<rparr>, Idle, [])"
  | (crash) q item rest gb e where "channel_queues s ch = Some q" "items q = item # rest"
      "wait_time (global_bucket s) t 1 = (gb, Inl e)"
      "loop_head s ch t =
         (s\<lparr>channel_queues := (channel_queues s)(ch \<mapsto> q\<lparr>items := rest\<rparr>), global_bucket := gb\<rparr>,
          Crashed e, [])"
  | (pop) q item rest gb w where "channel_queues s ch = Some q" "items q = item # rest"
      "wait_time (global_bucket s) t 1 = (gb, Inr w)"
      "loop_head s ch t =
         (s\<lparr>channel_queues := (channel_queues s)(ch \<mapsto> q\<lparr>items := rest\<rparr>), global_bucket := gb\<rparr>,
          Global_sleep item, sleep_if_positive w)"
proof (cases "channel_queues s ch")
  case None
  then show ?thesis
    using none by (simp add: loop_head_def)
next
  case (Some q)
  show ?thesis
  proof (cases "items q")
    case Nil
    then show ?thesis
      using empty Some by (simp add: loop_head_def)
  next
    case (Cons item rest)
    obtain gb r where w: "wait_time (global_bucket s) t 1 = (gb, r)"
      by (cases "wait_time (global_bucket s) t 1")
    show ?thesis
    proof (cases r)
      case (Inl e)
      then show ?thesis
        using crash [of q item rest gb e] Some Cons w by (simp add: loop_head_def Let_def)
    next
      case (Inr d)
      then show ?thesis
        using pop [of q item rest gb d] Some Cons w by (simp add: loop_head_def Let_def)
    qed
  qed
qed

lemma after_global_sleep_cases:
  obtains
    (none) "channel_buckets s ch = None"
      "after_global_sleep s ch item t2 t3 =
         (s\<lparr>global_bucket := fst (consume (global_bucket s) t2 1)\<rparr>, Crashed (Raised ''no bucket''), [])"
  | (crash) b b1 e where "channel_buckets s ch = Some b" "wait_time b t3 1 = (b1, Inl e)"
      "after_global_sleep s ch item t2 t3 =
         (s\<lparr>channel_buckets := (channel_buckets s)(ch \<mapsto> b1),
            global_bucket := fst (consume (global_bucket s) t2 1)\<rparr>, Crashed e, [])"
  | (wait) b b1 w where "channel_buckets s ch = Some b" "wait_time b t3 1 = (b1, Inr w)"
      "after_global_sleep s ch item t2 t3 =
         (s\<lparr>channel_buckets := (channel_buckets s)(ch \<mapsto> b1),
            global_bucket := fst (consume (global_bucket s) t2 1)\<rparr>,
          Channel_sleep item, sleep_if_positive w)"
proof (cases "channel_buckets s ch")
  case None
  then show ?thesis
    using none by (simp add: after_global_sleep_def Let_def)
next
  case (Some b)
  obtain b1 r where w: "wait_time b t3 1 = (b1, r)"
    by (cases "wait_time b t3 1")
  show ?thesis
  proof (cases r)
    case (Inl e)
    then show ?thesis
      using crash [of b b1 e] Some w by (simp add: after_global_sleep_def Let_def)
  next
    case (Inr d)
    then show ?thesis
      using wait [of b b1 d] Some w by (simp add: after_global_sleep_def Let_def)
  qed
qed

lemma after_channel_sleep_cases:
  obtains
    (none) "channel_buckets s ch = None"
      "after_channel_sleep s run ch item t = (s, Crashed (Raised ''no bucket''), [])"
  | (ran) b b1 v st where "channel_buckets s ch = Some b" "consume b t 1 = (b1, True)"
      "after_channel_sleep s run ch item t =
         (s\<lparr>channel_buckets := (channel_buckets s)(ch \<mapsto> b1), stats := st,
            futures := resolve (futures s) (future item) v\<rparr>,
          Head, [Invoked (coro item)])"
  | (died) b b1 e where "channel_buckets s ch = Some b" "consume b t 1 = (b1, True)"
      "after_channel_sleep s run ch item t =
         (s\<lparr>channel_buckets := (channel_buckets s)(ch \<mapsto> b1)\<rparr>, Crashed e,
          [Invoked (coro item)])"
  | (lost) b b1 where "channel_buckets s ch = Some b" "consume b t 1 = (b1, False)"
      "channel_queues s ch = None"
      "after_channel_sleep s run ch item t =
         (s\<lparr>channel_buckets := (channel_buckets s)(ch \<mapsto> b1)\<rparr>, Crashed (Raised ''no queue''), [])"
  | (requeue) b b1 q where "channel_buckets s ch = Some b" "consume b t 1 = (b1, False)"
      "channel_queues s ch = Some q"
      "after_channel_sleep s run ch item t =
         (s\<lparr>channel_queues := (channel_queues s)(ch \<mapsto> dq_appendleft q item),
            channel_buckets := (channel_buckets s)(ch \<mapsto> b1)\<rparr>, Head, [Slept (1 / 10)])"
proof (cases "channel_buckets s ch")
  case None
  then show ?thesis
    using none by (simp add: after_channel_sleep_def)
next
  case (Some b)
  obtain b1 ok where c: "consume b t 1 = (b1, ok)"
    by (cases "consume b t 1")
  show ?thesis
  proof (cases ok)
    case True
    show ?thesis
    proof (cases "run (coro item)")
      case (Inl e)
      show ?thesis
      proof (cases "is_exception e")
        case True
        then show ?thesis
          using ran [of b b1 "Exception e" "stats s"] Some c \<open>ok\<close> Inl
          by (simp add: after_channel_sleep_def Let_def)
      next
        case False
        then show ?thesis
          using died [of b b1 e] Some c \<open>ok\<close> Inl
          by (simp add: after_channel_sleep_def Let_def)
      qed
    next
      case (Inr r)
      then show ?thesis
        using ran [of b b1 "Result r"
            "(stats s)\<lparr>messages_sent := messages_sent (stats s) + 1\<rparr>"] Some c True
        by (simp add: after_channel_sleep_def Let_def)
    qed
  next
    case False
    show ?thesis
    proof (cases "channel_queues s ch")
      case None
      then show ?thesis
        using lost [of b b1] Some c False by (simp add: after_channel_sleep_def Let_def)
    next
      case (Some q)
      then show ?thesis
        using requeue [of b b1 q] \<open>channel_buckets s ch = Some b\<close> c False
        by (simp add: after_channel_sleep_def Let_def)
    qed
  qed
qed

lemma task_start_keeps:
  "enabled (fst (task_start s ch t)) = enabled s"
  "max_queue_size (fst (task_start s ch t)) = max_queue_size s"
  "processing_tasks (fst (task_start s ch t)) = processing_tasks s"
  "futures (fst (task_start s ch t)) = futures s"
  "queue_items (fst (task_start s ch t)) ch = queue_items s ch"
  by (auto simp add: task_start_def get_channel_queue_def get_channel_lock_def
      get_channel_bucket_def queue_items_def Let_def
      split: option.splits sum.splits prod.splits if_splits)




















section \<open>A future that no queued item refers to\<close>

lemma resolve_other:
  "fid \<noteq> f \<Longrightarrow> resolve fs f v ! fid = fs ! fid"
  "length (resolve fs f v) = length fs"
  by (simp_all add: resolve_def)

lemma dq_append_set: "set (items (dq_append q x)) \<subseteq> insert x (set (items q))"
  by (auto simp add: dq_append_def Let_def dest: list.set_sel(2) [rotated])

lemma dq_appendleft_set: "set (items (dq_appendleft q x)) \<subseteq> insert x (set (items q))"
  by (auto simp add: dq_appendleft_def Let_def dest: in_set_butlastD)

lemma orphan_enqueue:
  assumes "orphan fid ch (s, p, tr)"
  shows "orphan fid ch (fst (enqueue_send s ch c now), p1, tr1) \<longleftrightarrow>
      (\<forall>item \<in> set (held p1). future item \<noteq> fid)"
    and "futures (fst (enqueue_send s ch c now)) ! fid = futures s ! fid"
proof -
  have fid: "fid < length (futures s)" and q: "\<forall>item \<in> set (queue_items s ch). future item \<noteq> fid"
    using assms by auto
  define new :: "'a QueuedItem" where
    "new = \<lparr>coro = c, future = length (futures s), timestamp = now\<rparr>"
  define q0 where "q0 = (case channel_queues s ch of
      None \<Rightarrow> \<lparr>items = [], maxlen = nat (max_queue_size s)\<rparr> | Some q \<Rightarrow> q)"
  have q0: "queue_items s ch = items q0"
    by (simp add: q0_def queue_items_def split: option.splits)
  have "queue_items (fst (enqueue_send s ch c now)) ch = queue_items s ch \<or>
      queue_items (fst (enqueue_send s ch c now)) ch = items (dq_append q0 new)"
    by (auto simp add: enqueue_send_def get_channel_queue_def get_channel_lock_def queue_items_def
        new_def q0_def Let_def split: option.splits)
  then have "set (queue_items (fst (enqueue_send s ch c now)) ch) \<subseteq>
      insert new (set (queue_items s ch))"
    using dq_append_set [of q0 new] q0 by auto
  moreover have "future new \<noteq> fid"
    using fid by (simp add: new_def)
  ultimately have "\<forall>item \<in> set (queue_items (fst (enqueue_send s ch c now)) ch). future item \<noteq> fid"
    using q by auto
  moreover have "fid < length (futures (fst (enqueue_send s ch c now)))"
    using fid
    by (auto simp add: enqueue_send_def get_channel_queue_def get_channel_lock_def Let_def
        split: option.splits)
  ultimately show "orphan fid ch (fst (enqueue_send s ch c now), p1, tr1) \<longleftrightarrow>
      (\<forall>item \<in> set (held p1). future item \<noteq> fid)"
    by auto
  show "futures (fst (enqueue_send s ch c now)) ! fid = futures s ! fid"
    using fid
    by (auto simp add: enqueue_send_def get_channel_queue_def get_channel_lock_def Let_def
        nth_append split: option.splits)
qed

lemma queue_items_eq:
  "channel_queues s1 ch = Some q \<Longrightarrow> queue_items s1 ch = items q"
  "channel_queues s1 ch = channel_queues s ch \<Longrightarrow> queue_items s1 ch = queue_items s ch"
  by (simp_all add: queue_items_def)

lemma orphan_loop_head:
  assumes "fid < length (futures s)" and "\<forall>i \<in> set (queue_items s ch). future i \<noteq> fid"
    and "loop_head s ch t = (s1, p1, effs)"
  shows "futures s1 = futures s \<and> (\<forall>i \<in> set (held p1 @ queue_items s1 ch). future i \<noteq> fid)"
proof (cases rule: loop_head_cases [of s ch t])
  case none
  then show ?thesis
    using assms by auto
next
  case (empty q)
  then have "queue_items s1 ch = queue_items s ch" "futures s1 = futures s" "p1 = Idle"
    using assms(3) by (auto simp add: queue_items_def)
  then show ?thesis
    using assms(2) by simp
next
  case (crash q item rest gb e)
  then have "queue_items s ch = item # rest" "queue_items s1 ch = rest" "futures s1 = futures s"
    "p1 = Crashed e"
    using assms(3) by (auto simp add: queue_items_def)
  then show ?thesis
    using assms(2) by simp
next
  case (pop q item rest gb w)
  then have "queue_items s ch = item # rest" "queue_items s1 ch = rest" "futures s1 = futures s"
    "p1 = Global_sleep item"
    using assms(3) by (auto simp add: queue_items_def)
  then show ?thesis
    using assms(2) by simp
qed

lemma orphan_task_step:
  assumes "orphan fid ch (s, p, tr)" and "task_step run ch ta tb (s, p) = (s1, p1, effs)"
  shows "orphan fid ch (s1, p1, tr1) \<and> futures s1 ! fid = futures s ! fid"
proof (cases p)
  case Idle
  then show ?thesis
    using assms by (auto simp add: task_step_def)
next
  case Start
  obtain s0 r where ts: "task_start s ch ta = (s0, r)"
    by (cases "task_start s ch ta")
  have s0: "futures s0 = futures s" "queue_items s0 ch = queue_items s ch"
    using task_start_keeps(4,5) [of s ch ta] ts by simp_all
  show ?thesis
  proof (cases r)
    case (Some e)
    then show ?thesis
      using assms Start ts s0 by (auto simp add: task_step_def)
  next
    case None
    then have lh: "loop_head s0 ch tb = (s1, p1, effs)"
      using assms(2) Start ts by (simp add: task_step_def)
    show ?thesis
      using orphan_loop_head [OF _ _ lh, of fid] assms(1) Start s0 by simp
  qed
next
  case Head
  then have lh: "loop_head s ch tb = (s1, p1, effs)"
    using assms(2) by (simp add: task_step_def)
  show ?thesis
    using orphan_loop_head [OF _ _ lh, of fid] assms(1) Head by simp
next
  case (Global_sleep item)
  then have ag: "after_global_sleep s ch item ta tb = (s1, p1, effs)"
    using assms(2) by (simp add: task_step_def)
  have "futures s1 = futures s \<and> queue_items s1 ch = queue_items s ch \<and> set (held p1) \<subseteq> {item}"
    using ag
    by (cases rule: after_global_sleep_cases [of s ch item ta tb]) (auto simp add: queue_items_def)
  then show ?thesis
    using assms(1) Global_sleep by auto
next
  case (Channel_sleep item)
  then have ac: "after_channel_sleep s run ch item ta = (s1, p1, effs)"
    using assms(2) by (simp add: task_step_def)
  have it: "future item \<noteq> fid" and fid: "fid < length (futures s)"
    and q: "\<forall>i \<in> set (queue_items s ch). future i \<noteq> fid"
    using assms(1) Channel_sleep by auto
  have "length (futures s1) = length (futures s) \<and> futures s1 ! fid = futures s ! fid \<and>
      held p1 = [] \<and> set (queue_items s1 ch) \<subseteq> insert item (set (queue_items s ch))"
  proof (cases rule: after_channel_sleep_cases [of s ch run item ta])
    case none
    then show ?thesis
      using ac by auto
  next
    case (ran b b1 v st)
    then have "futures s1 = resolve (futures s) (future item) v" "p1 = Head"
      "queue_items s1 ch = queue_items s ch"
      using ac by (auto simp add: queue_items_def)
    then show ?thesis
      using it resolve_other(1) [of fid "future item" "futures s" v]
        resolve_other(2) [of "futures s" "future item" v] by auto
  next
    case (died b b1 e)
    then have "futures s1 = futures s" "p1 = Crashed e" "queue_items s1 ch = queue_items s ch"
      using ac by (auto simp add: queue_items_def)
    then show ?thesis
      by auto
  next
    case (lost b b1)
    then have "futures s1 = futures s" "p1 = Crashed (Raised ''no queue'')"
      "queue_items s1 ch = queue_items s ch"
      using ac by (auto simp add: queue_items_def)
    then show ?thesis
      by auto
  next
    case (requeue b b1 q0)
    then have "futures s1 = futures s" "p1 = Head" "queue_items s ch = items q0"
      "queue_items s1 ch = items (dq_appendleft q0 item)"
      using ac by (auto simp add: queue_items_def)
    then show ?thesis
      using dq_appendleft_set [of q0 item] by auto
  qed
  then show ?thesis
    using it fid q by auto
next
  case (Crashed e)
  then show ?thesis
    using assms by (auto simp add: task_step_def)
qed

lemma orphan_sys_step:
  assumes "orphan fid ch cfg"
  shows "orphan fid ch (sys_step run ch cfg e) \<and>
    futures (fst (sys_step run ch cfg e)) ! fid = futures (fst cfg) ! fid"
proof -
  obtain s p tr where cfg: "cfg = (s, p, tr)"
    by (cases cfg)
  have h: "\<forall>item \<in> set (held p). future item \<noteq> fid"
    using assms cfg by auto
  show ?thesis
  proof (cases e)
    case (Enqueue c now)
    define p1 where "p1 = (if ch \<notin> processing_tasks s \<and>
      ch \<in> processing_tasks (fst (enqueue_send s ch c now)) then Start else p)"
    have "\<forall>item \<in> set (held p1). future item \<noteq> fid"
      using h by (simp add: p1_def)
    then have "orphan fid ch (fst (enqueue_send s ch c now), p1, tr)"
      using orphan_enqueue(1) [of fid ch s p tr c now p1 tr] assms cfg by simp
    then show ?thesis
      using orphan_enqueue(2) [of fid ch s p tr c now] assms cfg
      by (simp add: Enqueue cfg sys_step_def Let_def p1_def del: orphan.simps)
  next
    case (Step ta tb)
    obtain s1 p1 effs where ts: "task_step run ch ta tb (s, p) = (s1, p1, effs)"
      by (cases "task_step run ch ta tb (s, p)")
    then show ?thesis
      using orphan_task_step [of fid ch s p tr run ta tb s1 p1 effs "tr @ effs"] assms cfg
      by (simp add: Step cfg sys_step_def del: orphan.simps)
  next
    case (Backoff c r t1 t2)
    have "queue_items (fst (handle_rate_limit_response s c r t1 t2)) ch = queue_items s ch"
      by (simp add: queue_items_def backoff_keeps)
    then show ?thesis
      using assms cfg by (simp add: Backoff sys_step_def backoff_keeps)
  next
    case (Configure crl cw sp mqs en)
    have "channel_queues (configure s crl cw sp mqs en) = channel_queues s"
      "futures (configure s crl cw sp mqs en) = futures s"
      by (simp_all add: configure_def Let_def split: option.splits)
    moreover from this have "queue_items (configure s crl cw sp mqs en) ch = queue_items s ch"
      by (simp add: queue_items_def)
    ultimately show ?thesis
      using assms cfg by (simp add: Configure sys_step_def)
  qed
qed

lemma orphan_exec:
  assumes "orphan fid ch cfg"
  shows "orphan fid ch (exec run ch cfg evs) \<and>
    futures (fst (exec run ch cfg evs)) ! fid = futures (fst cfg) ! fid"
proof (induction evs rule: rev_induct)
  case Nil
  then show ?case
    using assms by (simp add: exec_def)
next
  case (snoc e evs)
  then show ?case
    using orphan_sys_step [of fid ch "exec run ch cfg evs" run e]
    by (simp add: exec_snoc del: orphan.simps)
qed

text \<open>
  Claim C10. A queue is created with \<open>maxlen\<close> equal to the \<open>max_queue_size\<close> of that moment,
  and \<^verbatim>\<open>configure\<close> never touches an existing queue. So when a queue holds \<open>maxlen\<close> items,
  the oldest being \<open>x\<close>, and \<^verbatim>\<open>configure\<close> then sets \<open>max_queue_size\<close> to a larger \<open>m\<close>,
  the next \<^verbatim>\<open>enqueue_send\<close> passes the overflow check and returns a pending future, its
  item is appended and \<open>x\<close> falls out of the queue; \<open>queue_overflows\<close> and \<open>messages_sent\<close>
  do not move. If \<open>x\<close>'s future belongs to no other item of the queue or of the task, then
  whatever is scheduled for the channel afterwards, that future stays as it was.
\<close>

theorem stale_maxlen_drops_oldest:
  "(channel_queues s ch = None \<and> 0 \<le> max_queue_size s \<longrightarrow>
      get_channel_queue s ch =
        Inr (s\<lparr>channel_queues := (channel_queues s)
               (ch \<mapsto> \<lparr>items = [], maxlen = nat (max_queue_size s)\<rparr>)\<rparr>,
             \<lparr>items = [], maxlen = nat (max_queue_size s)\<rparr>)) \<and>
   channel_queues (configure s crl cw sp mqs en) = channel_queues s \<and>
   (enabled s \<and> channel_queues s ch = Some q \<and> items q = x # xs \<and>
    length (items q) = maxlen q \<and> int (maxlen q) < m \<and> future x < length (futures s) \<and>
    (\<forall>item \<in> set (held p @ xs). future item \<noteq> future x) \<longrightarrow>
      (case enqueue_send (configure s None None None (Some m) None) ch c now of (s', h) \<Rightarrow>
         h = Inr (Future_at (length (futures s))) \<and>
         channel_queues s' ch =
           Some (q\<lparr>items := xs @ [\<lparr>coro = c, future = length (futures s), timestamp = now\<rparr>]\<rparr>) \<and>
         futures s' = futures s @ [Pending] \<and>
         queue_overflows (stats s') = queue_overflows (stats s) \<and>
         messages_sent (stats s') = messages_sent (stats s) \<and>
         messages_queued (stats s') = messages_queued (stats s) + 1 \<and>
         (\<forall>evs. futures (fst (exec run ch (s', p, tr) evs)) ! future x = futures s ! future x)))"
proof (intro conjI impI)
  assume "channel_queues s ch = None \<and> 0 \<le> max_queue_size s"
  then show "get_channel_queue s ch =
        Inr (s\<lparr>channel_queues := (channel_queues s)
               (ch \<mapsto> \<lparr>items = [], maxlen = nat (max_queue_size s)\<rparr>)\<rparr>,
             \<lparr>items = [], maxlen = nat (max_queue_size s)\<rparr>)"
    by (simp add: get_channel_queue_def Let_def)
next
  show "channel_queues (configure s crl cw sp mqs en) = channel_queues s"
    by (rule configure_keeps_queues)
next
  assume a: "enabled s \<and> channel_queues s ch = Some q \<and> items q = x # xs \<and>
    length (items q) = maxlen q \<and> int (maxlen q) < m \<and> future x < length (futures s) \<and>
    (\<forall>item \<in> set (held p @ xs). future item \<noteq> future x)"
  define new where "new = \<lparr>coro = c, future = length (futures s), timestamp = now\<rparr>"
  define s' where "s' = s\<lparr>channel_queues := (channel_queues s)(ch \<mapsto> q\<lparr>items := xs @ [new]\<rparr>),
       channel_locks := insert ch (channel_locks s),
       processing_tasks := insert ch (processing_tasks s),
       max_queue_size := m,
       stats := (stats s)\<lparr>messages_queued := messages_queued (stats s) + 1\<rparr>,
       futures := futures s @ [Pending]\<rparr>"
  have step: "enqueue_send (configure s None None None (Some m) None) ch c now =
      (s', Inr (Future_at (length (futures s))))"
  proof -
    have "enabled s" "channel_queues s ch = Some q" "items q = x # xs"
      "length (items q) = maxlen q" "int (maxlen q) < m"
      using a by blast+
    then show ?thesis
      unfolding s'_def new_def by (rule enqueue_send_stale_maxlen)
  qed
  have "queue_items s' ch = xs @ [new]"
    by (simp add: s'_def queue_items_def)
  moreover have "future new \<noteq> future x"
    using a by (simp add: new_def)
  ultimately have "orphan (future x) ch (s', p, tr)"
    using a by (auto simp add: s'_def)
  then have "futures (fst (exec run ch (s', p, tr) evs)) ! future x = futures s' ! future x" for evs
    using orphan_exec [of "future x" ch "(s', p, tr)" run evs] by simp
  moreover have "futures s' ! future x = futures s ! future x"
    using a by (simp add: s'_def nth_append)
  ultimately have "\<forall>evs. futures (fst (exec run ch (s', p, tr) evs)) ! future x = futures s ! future x"
    by simp
  then show "case enqueue_send (configure s None None None (Some m) None) ch c now of (s', h) \<Rightarrow>
         h = Inr (Future_at (length (futures s))) \<and>
         channel_queues s' ch =
           Some (q\<lparr>items := xs @ [\<lparr>coro = c, future = length (futures s), timestamp = now\<rparr>]\<rparr>) \<and>
         futures s' = futures s @ [Pending] \<and>
         queue_overflows (stats s') = queue_overflows (stats s) \<and>
         messages_sent (stats s') = messages_sent (stats s) \<and>
         messages_queued (stats s') = messages_queued (stats s) + 1 \<and>
         (\<forall>evs. futures (fst (exec run ch (s', p, tr) evs)) ! future x = futures s ! future x)"
    by (simp add: step) (simp add: s'_def new_def)
qed

lemma stale_example_result:
  "enqueue_send (configure full_queue_limiter None None None (Some 3) None) 7 3 0 =
     (stale_example, Inr (Future_at 2))"
  "channel_queues stale_example 7 =
     Some \<lparr>items = [\<lparr>coro = 2, future = 1, timestamp = 0\<rparr>, \<lparr>coro = 3, future = 2, timestamp = 0\<rparr>],
           maxlen = 2\<rparr>"
  "futures stale_example = [Pending, Pending, Pending]"
  "stats stale_example =
     \<lparr>rate_limit_hits = 0, messages_queued = 3, messages_sent = 0, queue_overflows = 0\<rparr>"
  by (simp_all add: stale_example_def full_queue_limiter_def small_limiter_def configure_def
      init_limiter_def enqueue_send_def get_channel_queue_def get_channel_lock_def dq_append_def
      Let_def)

lemma stale_example_drained:
  "snd (exec run_example 7 (stale_example, Start, []) drain_schedule) =
     (Idle, [Invoked 2, Invoked 3])"
  "futures (fst (exec run_example 7 (stale_example, Start, []) drain_schedule)) =
     [Pending, Result 2, Result 3]"
  "stats (fst (exec run_example 7 (stale_example, Start, []) drain_schedule)) =
     \<lparr>rate_limit_hits = 0, messages_queued = 3, messages_sent = 2, queue_overflows = 0\<rparr>"
  by (simp_all add: exec_def drain_schedule_def stale_example_def full_queue_limiter_def
      small_limiter_def configure_def init_limiter_def eval_nat_numeral
      sys_step_def task_step_def task_start_def loop_head_def after_global_sleep_def
      after_channel_sleep_def enqueue_send_def get_channel_queue_def get_channel_lock_def
      get_channel_bucket_def wait_time_def consume_def refill_def dq_append_def resolve_def
      run_example_def sleep_if_positive_def Let_def)

theorem stale_maxlen_drops_oldest_witness:
  "channel_queues small_limiter 7 = None \<and> 0 \<le> max_queue_size small_limiter \<and>
   get_channel_queue small_limiter 7 =
     Inr (small_limiter\<lparr>channel_queues := (channel_queues small_limiter)
            (7 \<mapsto> \<lparr>items = [], maxlen = 2\<rparr>)\<rparr>, \<lparr>items = [], maxlen = 2\<rparr>) \<and>
   enabled full_queue_limiter \<and> channel_queues full_queue_limiter 7 = Some full_queue \<and>
   items full_queue =
     [\<lparr>coro = 1, future = 0, timestamp = 0\<rparr>, \<lparr>coro = 2, future = 1, timestamp = 0\<rparr>] \<and>
   length (items full_queue) = maxlen full_queue \<and> int (maxlen full_queue) < 3 \<and>
   enqueue_send (configure full_queue_limiter None None None (Some 3) None) 7 3 0 =
     (stale_example, Inr (Future_at 2)) \<and>
   channel_queues stale_example 7 =
     Some \<lparr>items = [\<lparr>coro = 2, future = 1, timestamp = 0\<rparr>, \<lparr>coro = 3, future = 2, timestamp = 0\<rparr>],
           maxlen = 2\<rparr> \<and>
   futures stale_example = [Pending, Pending, Pending] \<and>
   queue_overflows (stats stale_example) = 0 \<and> messages_sent (stats stale_example) = 0 \<and>
   (\<forall>evs. futures (fst (exec run_example 7 (stale_example, Start, []) evs)) ! 0 = Pending) \<and>
   snd (exec run_example 7 (stale_example, Start, []) drain_schedule) =
     (Idle, [Invoked 2, Invoked 3]) \<and>
   futures (fst (exec run_example 7 (stale_example, Start, []) drain_schedule)) =
     [Pending, Result 2, Result 3] \<and>
   messages_sent (stats (fst (exec run_example 7 (stale_example, Start, []) drain_schedule))) = 2 \<and>
   queue_overflows (stats (fst (exec run_example 7 (stale_example, Start, []) drain_schedule))) = 0"
proof -
  note t = stale_maxlen_drops_oldest [where s = full_queue_limiter and ch = 7 and q = full_queue
      and x = "\<lparr>coro = 1, future = 0, timestamp = 0\<rparr>"
      and xs = "[\<lparr>coro = 2, future = 1, timestamp = 0\<rparr>]"
      and m = 3 and p = Start and c = 3 and now = 0 and run = run_example and tr = "[]"]
    stale_maxlen_drops_oldest [where s = small_limiter and ch = 7]
  show ?thesis
    using t
    by (simp add: full_queue_limiter_fields small_limiter_fields stale_example_result
        stale_example_drained full_queue_def)
qed

end
